theory Spec2Isabelle
  imports Main
begin

section \<open>raus: unique ids by conditional create and broadcast\<close>

text \<open>
  A shallow embedding of \<^verbatim>\<open>raus.go\<close>. The Redis client, the clock, the context and the
  random generator are the environment: every answer they give is an input of the model,
  and every command sent to the store is an output (a list of \<open>store_op\<close>). Informational
  log lines (\<^verbatim>\<open>log.Printf\<close> of candidates, keys, ...) are left out; the errors handed to
  \<^verbatim>\<open>log.Println(err)\<close> are kept, as a list.

  Go's \<^verbatim>\<open>int\<close> is taken to be 64 bits wide (amd64, arm64). Values are HOL integers; the one
  place where the source does arithmetic on them, the \<^verbatim>\<open>i++\<close> of the candidate scan, has
  its wrap-around written out.
\<close>

subsection \<open>Constants and data\<close>

definition ErrorID :: int where
  "ErrorID = - 1"

definition maxCandidate :: nat where
  "maxCandidate = 10"

definition defaultNamespace :: string where
  "defaultNamespace = ''raus''"

definition pubSubChannelSuffix :: string where
  "pubSubChannelSuffix = '':broadcast''"

text \<open>\<^verbatim>\<open>time.Second\<close>, a \<^verbatim>\<open>time.Duration\<close>, counts nanoseconds.\<close>

definition Second :: nat where
  "Second = 1000000000"

definition MaxInt :: int where
  "MaxInt = 9223372036854775807"

definition MinInt :: int where
  "MinInt = - 9223372036854775808"

text \<open>
  The errors of the source, one constructor for each \<^verbatim>\<open>errors.New\<close> and \<^verbatim>\<open>fmt.Errorf\<close>,
  and \<open>RedisError\<close> for an error returned by the client.
\<close>

datatype error =
    MinNegative
  | MaxNotGreater
  | Canceled
  | DuplicateUuid
  | UnknownRedisMessage
  | NoMoreAvailableId
  | DuplicateIdDetected
  | UnexpectedData string
  | RedisError string

text \<open>
  The fields \<^verbatim>\<open>id\<close>, \<^verbatim>\<open>min\<close> and \<^verbatim>\<open>max\<close> carry a suffix, since \<open>id\<close>, \<open>min\<close> and \<open>max\<close> are
  constants of HOL. The field \<^verbatim>\<open>rand\<close> is the generator's state: its draws are an input of
  \<open>LOCKING\<close>. A channel is the handle of the channel made by \<^verbatim>\<open>make(chan error, 0)\<close>.
\<close>

record Raus =
  uuid :: string
  id_r :: int
  min_r :: int
  max_r :: int
  redisAddr :: string
  namespace :: string
  pubSubChannel :: string
  channel :: nat

subsection \<open>Payloads\<close>

text \<open>\<^verbatim>\<open>strings.Split(s, sep)\<close> for a separator of one byte.\<close>

fun Split :: "string \<Rightarrow> char \<Rightarrow> string list" where
  "Split [] sep = [[]]"
| "Split (c # cs) sep =
     (if c = sep then [] # Split cs sep
      else (case Split cs sep of [] \<Rightarrow> [[c]] | p # ps \<Rightarrow> (c # p) # ps))"

definition is_digit :: "char \<Rightarrow> bool" where
  "is_digit c = (48 \<le> (of_char c :: nat) \<and> (of_char c :: nat) \<le> 57)"

fun digits_val :: "string \<Rightarrow> nat \<Rightarrow> nat option" where
  "digits_val [] acc = Some acc"
| "digits_val (c # cs) acc =
     (if is_digit c then digits_val cs (10 * acc + (of_char c - 48)) else None)"

text \<open>
  \<^verbatim>\<open>strconv.Atoi\<close>: an optional sign, then at least one decimal digit and nothing else;
  a value outside the 64-bit range is an error.
\<close>

definition Atoi :: "string \<Rightarrow> int option" where
  "Atoi s =
     (let (neg, ds) =
        (case s of
           [] \<Rightarrow> (False, s)
         | c # cs \<Rightarrow>
             if c = CHR ''-'' then (True, cs)
             else if c = CHR ''+'' then (False, cs)
             else (False, s))
      in if ds = [] then None
         else (case digits_val ds 0 of
                 None \<Rightarrow> None
               | Some n \<Rightarrow>
                   (let v = (if neg then - int n else int n)
                    in if MinInt \<le> v \<and> v \<le> MaxInt then Some v else None)))"

definition parsePayload :: "string \<Rightarrow> error + string \<times> int" where
  "parsePayload payload =
     (let s = Split payload (CHR '':'')
      in if length s \<noteq> 2 then Inl (UnexpectedData payload)
         else (case Atoi (s ! 1) of
                 None \<Rightarrow> Inl (UnexpectedData payload)
               | Some i \<Rightarrow> Inr (s ! 0, i)))"

text \<open>The verb \<^verbatim>\<open>%d\<close> of \<^verbatim>\<open>fmt.Sprintf\<close>: decimal digits, with a minus sign below zero.\<close>

fun decimal :: "nat \<Rightarrow> string" where
  "decimal n =
     (if n < 10 then [char_of (48 + n)]
      else decimal (n div 10) @ [char_of (48 + n mod 10)])"

declare decimal.simps [simp del]

definition Itoa :: "int \<Rightarrow> string" where
  "Itoa i = (if i < 0 then CHR ''-'' # decimal (nat (- i)) else decimal (nat i))"

definition newPayload :: "string \<Rightarrow> int \<Rightarrow> string" where
  "newPayload u i = u @ '':'' @ Itoa i"

subsection \<open>Construction and keys\<close>

text \<open>
  \<open>New\<close> takes, besides its three arguments, what it reads from the environment: the
  string of the fresh version-4 UUID and the handle of the fresh channel. The seed of the
  generator is not modelled; \<^verbatim>\<open>id\<close> starts as Go's zero value.
\<close>

definition New :: "string \<Rightarrow> int \<Rightarrow> int \<Rightarrow> string \<Rightarrow> nat \<Rightarrow> error + Raus" where
  "New addr mn mx fresh_uuid fresh_chan =
     (if mn < 0 then Inl MinNegative
      else if mn \<ge> mx then Inl MaxNotGreater
      else Inr \<lparr>uuid = fresh_uuid, id_r = 0, min_r = mn, max_r = mx, redisAddr = addr,
                namespace = defaultNamespace,
                pubSubChannel = defaultNamespace @ pubSubChannelSuffix,
                channel = fresh_chan\<rparr>)"

definition SetNamespace :: "Raus \<Rightarrow> string \<Rightarrow> Raus" where
  "SetNamespace r n = r\<lparr>namespace := n, pubSubChannel := n @ pubSubChannelSuffix\<rparr>"

definition lockKey :: "Raus \<Rightarrow> string" where
  "lockKey r = namespace r @ '':id:'' @ Itoa (id_r r)"

definition candidateLockKey :: "Raus \<Rightarrow> int \<Rightarrow> string" where
  "candidateLockKey r i = namespace r @ '':id:'' @ Itoa i"

text \<open>The commands sent to the store: key or channel, value or message, expiration.\<close>

datatype store_op =
    SetNX string string nat
  | Set string string nat
  | Del string
  | Publish string string

subsection \<open>Discovery: the loop \<^verbatim>\<open>LISTING\<close>\<close>

text \<open>
  What \<^verbatim>\<open>pubsub.ReceiveTimeout\<close> hands back: an error, a \<^verbatim>\<open>*redis.Message\<close> with its
  payload, a \<^verbatim>\<open>*redis.Subscription\<close>, or a value of another type (\<^verbatim>\<open>*redis.Pong\<close>).
  An arrival is such a reply with the time, in nanoseconds, after which it is available
  to a receive that waits for it. A receive with a deadline returns the next arrival if
  that comes before the deadline, and a timeout error at the deadline otherwise; with
  nothing left to arrive it times out.
\<close>

datatype reply = RecvError string | Message string | Subscription | Pong

type_synonym arrival = "nat \<times> reply"

definition ReceiveTimeout :: "nat \<Rightarrow> arrival list \<Rightarrow> nat \<times> reply \<times> arrival list" where
  "ReceiveTimeout deadline incoming =
     (case incoming of
        [] \<Rightarrow> (deadline, RecvError ''i/o timeout'', [])
      | (d, x) # rest \<Rightarrow>
          if d < deadline then (d, x, rest)
          else (deadline, RecvError ''i/o timeout'', (d - deadline, x) # rest))"

text \<open>
  The context is cancelled at some time after the start of discovery, or never;
  \<open>ctx_Done c t\<close> says whether \<^verbatim>\<open>ctx.Done()\<close> is closed at time \<open>t\<close>.
\<close>

definition ctx_Done :: "nat option \<Rightarrow> nat \<Rightarrow> bool" where
  "ctx_Done cancel_at t = (case cancel_at of None \<Rightarrow> False | Some c \<Rightarrow> c \<le> t)"

definition timeout :: nat where
  "timeout = 3 * Second"

text \<open>Reading \<^verbatim>\<open>usedIds[i]\<close> in a \<^verbatim>\<open>map[int]bool\<close>: a missing key reads as false.\<close>

definition used :: "(int \<rightharpoonup> bool) \<Rightarrow> int \<Rightarrow> bool" where
  "used usedIds i = (case usedIds i of None \<Rightarrow> False | Some b \<Rightarrow> b)"

text \<open>
  The state of the loop: the table, the value of \<^verbatim>\<open>time.Since(start)\<close>, and two
  observations: for every receive issued, the time since the start at which it was issued,
  the deadline it was given and what it returned; and the errors logged. Time passes
  only inside a receive.
\<close>

record listing =
  used_ids :: "int \<rightharpoonup> bool"
  since :: nat
  receives :: "(nat \<times> nat \<times> reply) list"
  logged :: "error list"

function LISTING :: "Raus \<Rightarrow> nat option \<Rightarrow> listing \<Rightarrow> arrival list \<Rightarrow> error option \<times> listing" where
  "LISTING r cancel_at st incoming =
     (if since st < timeout then
        if ctx_Done cancel_at (since st) then (Some Canceled, st)
        else
          (case ReceiveTimeout timeout incoming of
             (took, msg, rest) \<Rightarrow>
               (let st' = st\<lparr>since := since st + took,
                              receives := receives st @ [(since st, timeout, msg)]\<rparr>
                in case msg of
                     RecvError e \<Rightarrow> (None, st')
                   | Message payload \<Rightarrow>
                       (case parsePayload payload of
                          Inl err \<Rightarrow> LISTING r cancel_at (st'\<lparr>logged := logged st' @ [err]\<rparr>) rest
                        | Inr (xuuid, xid) \<Rightarrow>
                            if xuuid = uuid r then (Some DuplicateUuid, st')
                            else LISTING r cancel_at
                                   (st'\<lparr>used_ids := (used_ids st')(xid \<mapsto> True)\<rparr>) rest)
                   | Subscription \<Rightarrow> LISTING r cancel_at st' rest
                   | Pong \<Rightarrow> (Some UnknownRedisMessage, st')))
      else (None, st))"
  by pat_completeness auto
termination
  by (relation "measure (\<lambda>(r, c, st, incoming). length incoming)")
     (auto simp: ReceiveTimeout_def split: list.splits if_splits prod.splits)

declare LISTING.simps [simp del]

subsection \<open>Claiming: the loop \<^verbatim>\<open>LOCKING\<close>\<close>

text \<open>\<^verbatim>\<open>i++\<close> on a 64-bit \<^verbatim>\<open>int\<close> wraps around.\<close>

definition incr :: "int \<Rightarrow> int" where
  "incr i = (if i = MaxInt then MinInt else i + 1)"

text \<open>
  The inner loop \<^verbatim>\<open>for i := r.min; i <= r.max; i++\<close>, from the counter \<open>i\<close> on, with the
  candidates collected so far. With \<^verbatim>\<open>r.max\<close> the largest \<^verbatim>\<open>int\<close> the loop test never
  fails, so the loop is partial: \<open>None\<close> is a run that never ends.
\<close>

partial_function (option) scan :: "(int \<rightharpoonup> bool) \<Rightarrow> int \<Rightarrow> int \<Rightarrow> int list \<Rightarrow> int list option" where
  "scan usedIds mx i candidate =
     (if i \<le> mx then
        if used usedIds i then scan usedIds mx (incr i) candidate
        else if length (candidate @ [i]) \<ge> maxCandidate then Some (candidate @ [i])
        else scan usedIds mx (incr i) (candidate @ [i])
      else Some candidate)"

declare scan.simps [code]

text \<open>
  The answers of the store to \<^verbatim>\<open>SetNX\<close>: an error, or whether the key was created.
  The environment of the loop is the sequence of raw draws of the generator and the
  sequence of the store's answers, both indexed by the attempt. \<^verbatim>\<open>Intn(n)\<close> returns
  some number from \<open>0\<close> up to \<open>n - 1\<close>: the raw draw reduced modulo \<open>n\<close>, which can be any
  of them. The result is the value sent on the channel (\<open>Inr\<close> the id stored in
  \<^verbatim>\<open>r.id\<close> before \<^verbatim>\<open>nil\<close> is sent) with the commands issued.
\<close>

datatype setnx_reply = SetNXErr string | SetNXVal bool

partial_function (option) LOCKING ::
  "Raus \<Rightarrow> (nat \<Rightarrow> nat) \<Rightarrow> (nat \<Rightarrow> setnx_reply) \<Rightarrow> (int \<rightharpoonup> bool) \<Rightarrow> nat \<Rightarrow> store_op list
     \<Rightarrow> ((error + int) \<times> store_op list) option" where
  "LOCKING r draws answers usedIds k cmds =
     (case scan usedIds (max_r r) (min_r r) [] of
        None \<Rightarrow> None
      | Some candidate \<Rightarrow>
          if length candidate = 0 then Some (Inl NoMoreAvailableId, cmds)
          else
            (case answers k of
               SetNXErr e \<Rightarrow>
                 Some (Inl (RedisError e),
                       cmds @ [SetNX (candidateLockKey r (candidate ! (draws k mod length candidate)))
                                (uuid r) (60 * Second)])
             | SetNXVal won \<Rightarrow>
                 if won then
                   Some (Inr (candidate ! (draws k mod length candidate)),
                         cmds @ [SetNX (candidateLockKey r (candidate ! (draws k mod length candidate)))
                                  (uuid r) (60 * Second)])
                 else
                   LOCKING r draws answers
                     (usedIds(candidate ! (draws k mod length candidate) \<mapsto> True)) (k + 1)
                     (cmds @ [SetNX (candidateLockKey r (candidate ! (draws k mod length candidate)))
                               (uuid r) (60 * Second)])))"

declare LOCKING.simps [code]

subsection \<open>\<^verbatim>\<open>subscribe\<close> up to its first send, and \<^verbatim>\<open>Get\<close>\<close>

text \<open>
  The environment of one call of \<^verbatim>\<open>Get\<close>: the answer to \<^verbatim>\<open>c.Subscribe\<close> (an error or
  none), the time of cancellation, what arrives on the subscription, the draws and the
  answers to \<^verbatim>\<open>SetNX\<close>.
\<close>

record env =
  subscribe_reply :: "string option"
  cancel_after :: "nat option"
  arrivals :: "arrival list"
  rnd :: "nat \<Rightarrow> nat"
  setnx :: "nat \<Rightarrow> setnx_reply"

text \<open>
  A run of \<^verbatim>\<open>subscribe\<close> up to its first send on \<^verbatim>\<open>r.channel\<close>: the value sent
  (\<open>None\<close> is \<^verbatim>\<open>nil\<close>), the session, the state in which discovery ended and the commands
  issued. \<open>discovery\<close> is the loop \<^verbatim>\<open>LISTING\<close> as \<^verbatim>\<open>subscribe\<close> enters it: an empty table,
  the clock at the start.
\<close>

record run =
  handshake :: "error option"
  session :: Raus
  listened :: listing
  ops :: "store_op list"

definition discovery :: "Raus \<Rightarrow> env \<Rightarrow> error option \<times> listing" where
  "discovery r e =
     LISTING r (cancel_after e) \<lparr>used_ids = Map.empty, since = 0, receives = [], logged = []\<rparr>
       (arrivals e)"

definition subscribe :: "Raus \<Rightarrow> env \<Rightarrow> run option" where
  "subscribe r e =
     (case subscribe_reply e of
        Some err \<Rightarrow>
          Some \<lparr>handshake = Some (RedisError err), session = r,
                listened = \<lparr>used_ids = Map.empty, since = 0, receives = [], logged = []\<rparr>,
                ops = []\<rparr>
      | None \<Rightarrow>
          (case discovery r e of
             (Some err, st) \<Rightarrow>
               Some \<lparr>handshake = Some err, session = r, listened = st, ops = []\<rparr>
           | (None, st) \<Rightarrow>
               if ctx_Done (cancel_after e) (since st) then
                 Some \<lparr>handshake = Some Canceled, session = r, listened = st, ops = []\<rparr>
               else
                 (case LOCKING r (rnd e) (setnx e) (used_ids st) 0 [] of
                    None \<Rightarrow> None
                  | Some (Inl err, cmds) \<Rightarrow>
                      Some \<lparr>handshake = Some err, session = r, listened = st, ops = cmds\<rparr>
                  | Some (Inr i, cmds) \<Rightarrow>
                      Some \<lparr>handshake = None, session = r\<lparr>id_r := i\<rparr>, listened = st,
                            ops = cmds\<rparr>)))"

text \<open>
  \<^verbatim>\<open>Get\<close> starts \<^verbatim>\<open>subscribe\<close> and waits for the first value on the channel. \<open>None\<close> for
  the channel returned is \<^verbatim>\<open>nil\<close>, \<open>None\<close> for the error is \<^verbatim>\<open>nil\<close>; the whole result is
  \<open>None\<close> when \<^verbatim>\<open>subscribe\<close> never sends.
\<close>

definition Get :: "Raus \<Rightarrow> env \<Rightarrow> (int \<times> nat option \<times> error option) option" where
  "Get r e =
     (case subscribe r e of
        None \<Rightarrow> None
      | Some rn \<Rightarrow>
          (case handshake rn of
             Some err \<Rightarrow> Some (ErrorID, None, Some err)
           | None \<Rightarrow> Some (id_r (session rn), Some (channel (session rn)), None)))"

subsection \<open>The duplicate watcher: the loop \<^verbatim>\<open>WATCHING\<close>\<close>

text \<open>
  What \<^verbatim>\<open>pubsub.ReceiveMessage\<close> returns: an error or a message with its payload. The loop
  reads for ever; the model runs it on what has been received so far and returns
  \<open>Some\<close> the error it raised if it has returned, \<open>None\<close> if it is waiting for more,
  and the errors logged. The loop is entered with an open subscription.
\<close>

datatype received = ReceiveError string | Received string

fun WATCHING :: "Raus \<Rightarrow> received list \<Rightarrow> error list \<Rightarrow> error option \<times> error list" where
  "WATCHING r [] lg = (None, lg)"
| "WATCHING r (ReceiveError e # rest) lg = WATCHING r rest (lg @ [RedisError e])"
| "WATCHING r (Received payload # rest) lg =
     (case parsePayload payload of
        Inl err \<Rightarrow> WATCHING r rest (lg @ [err])
      | Inr (xuuid, xid) \<Rightarrow>
          if xid = id_r r \<and> xuuid \<noteq> uuid r then (Some DuplicateIdDetected, lg)
          else WATCHING r rest lg)"

subsection \<open>The publisher\<close>

text \<open>
  A tick of the ticker, with what the environment answers at it: whether the context is
  cancelled, and the errors (or none) of \<^verbatim>\<open>Publish\<close>, \<^verbatim>\<open>Set\<close> and \<^verbatim>\<open>Del\<close>. The body of the
  loop returns whether \<^verbatim>\<open>publish\<close> returns, the commands issued and the errors logged.
\<close>

record tick =
  cancelled :: bool
  publish_reply :: "string option"
  set_reply :: "string option"
  del_reply :: "string option"

definition TICKER :: "Raus \<Rightarrow> tick \<Rightarrow> bool \<times> store_op list \<times> error list" where
  "TICKER r t =
     (if cancelled t then
        (case del_reply t of
           Some err \<Rightarrow> (True, [Del (lockKey r)], [RedisError err])
         | None \<Rightarrow> (True, [Del (lockKey r)], []))
      else
        (case publish_reply t of
           Some err \<Rightarrow>
             (False, [Publish (pubSubChannel r) (newPayload (uuid r) (id_r r))], [RedisError err])
         | None \<Rightarrow>
             (case set_reply t of
                Some err \<Rightarrow>
                  (False, [Publish (pubSubChannel r) (newPayload (uuid r) (id_r r)),
                           Set (lockKey r) (uuid r) (60 * Second)], [RedisError err])
              | None \<Rightarrow>
                  (False, [Publish (pubSubChannel r) (newPayload (uuid r) (id_r r)),
                           Set (lockKey r) (uuid r) (60 * Second)], []))))"

fun publish :: "Raus \<Rightarrow> tick list \<Rightarrow> bool \<times> store_op list \<times> error list" where
  "publish r [] = (False, [], [])"
| "publish r (t # ts) =
     (case TICKER r t of
        (True, cmds, lg) \<Rightarrow> (True, cmds, lg)
      | (False, cmds, lg) \<Rightarrow>
          (case publish r ts of (returned, cmds', lg') \<Rightarrow> (returned, cmds @ cmds', lg @ lg')))"

subsection \<open>The specification's vocabulary\<close>

text \<open>
  The candidates in the specification's words: the ids from \<open>mn\<close> to \<open>mx\<close> in ascending
  order that are not in the table, at most ten of them. \<open>free\<close> is the set of ids of the
  range not in the table, and \<open>claim_cmd\<close> recognises a conditional create of the lock key
  of an id of the range, with the session's nonce and sixty seconds to live.
\<close>

definition spec_candidates :: "(int \<rightharpoonup> bool) \<Rightarrow> int \<Rightarrow> int \<Rightarrow> int list" where
  "spec_candidates usedIds mn mx = take 10 (filter (\<lambda>j. \<not> used usedIds j) [mn..mx])"

definition free :: "(int \<rightharpoonup> bool) \<Rightarrow> int \<Rightarrow> int \<Rightarrow> int set" where
  "free usedIds mn mx = {i \<in> {mn..mx}. \<not> used usedIds i}"

definition claim_cmd :: "Raus \<Rightarrow> store_op \<Rightarrow> bool" where
  "claim_cmd r c =
     (c \<in> (\<lambda>i. SetNX (candidateLockKey r i) (uuid r) (60 * Second)) ` {min_r r..max_r r})"

subsection \<open>Sessions and environments used as examples\<close>

text \<open>
  The session of the specification's scenarios: range 1 to 3, default namespace, nonce
  \<open>N0\<close>; the same session once it owns id 3; and three ticks of the publisher: one at which
  \<^verbatim>\<open>Publish\<close> fails, one at which every command succeeds, one with the context cancelled.
\<close>

definition example_session :: Raus where
  "example_session =
     \<lparr>uuid = ''N0'', id_r = 0, min_r = 1, max_r = 3, redisAddr = ''localhost:6379'',
      namespace = ''raus'', pubSubChannel = ''raus:broadcast'', channel = 7\<rparr>"

definition owner :: Raus where
  "owner = example_session\<lparr>id_r := 3\<rparr>"

definition publish_fails :: tick where
  "publish_fails = \<lparr>cancelled = False, publish_reply = Some ''io'', set_reply = None, del_reply = None\<rparr>"

definition healthy :: tick where
  "healthy = \<lparr>cancelled = False, publish_reply = None, set_reply = None, del_reply = None\<rparr>"

definition shutdown :: tick where
  "shutdown = \<lparr>cancelled = True, publish_reply = None, set_reply = None, del_reply = None\<rparr>"

subsection \<open>Payload round trip\<close>

lemma Split_not_Nil: "Split s c \<noteq> []"
  by (induction s) (simp_all split: list.split)

lemma Split_none: "c \<notin> set s \<Longrightarrow> Split s c = [s]"
  by (induction s) auto

lemma Split_first: "c \<notin> set a \<Longrightarrow> Split (a @ c # b) c = a # Split b c"
  by (induction a) auto

lemma Split_single: 
  assumes "Split s c = [b]" shows "s = b \<and> c \<notin> set b"
proof (cases "c \<in> set s")
  case False
  with assms Split_none [of c s] show ?thesis by simp
next
  case True
  then obtain x y where s: "s = x @ c # y" and "c \<notin> set x"
    by (meson split_list_first)
  then have "Split s c = x # Split y c" by (simp add: Split_first)
  with assms have "Split y c = []" by simp
  then show ?thesis by (simp add: Split_not_Nil)
qed

lemma Split_two:
  "Split s c = [a, b] \<longleftrightarrow> s = a @ c # b \<and> c \<notin> set a \<and> c \<notin> set b"
proof
  assume two: "Split s c = [a, b]"
  show "s = a @ c # b \<and> c \<notin> set a \<and> c \<notin> set b"
  proof (cases "c \<in> set s")
    case False
    with two Split_none [of c s] show ?thesis by simp
  next
    case True
    then obtain x y where s: "s = x @ c # y" and x: "c \<notin> set x"
      by (meson split_list_first)
    then have "Split s c = x # Split y c" by (simp add: Split_first)
    with two have "x = a" and "Split y c = [b]" by simp_all
    with Split_single [of y c b] s x show ?thesis by simp
  qed
next
  assume "s = a @ c # b \<and> c \<notin> set a \<and> c \<notin> set b"
  then show "Split s c = [a, b]" by (simp add: Split_first Split_none)
qed

lemma Split_length_two:
  "length (Split s c) = 2 \<longleftrightarrow> (\<exists>a b. s = a @ c # b \<and> c \<notin> set a \<and> c \<notin> set b)"
proof
  assume "length (Split s c) = 2"
  then obtain a b where "Split s c = [a, b]"
    by (metis (no_types, opaque_lifting) One_nat_def Suc_1 length_0_conv length_Suc_conv)
  then show "\<exists>a b. s = a @ c # b \<and> c \<notin> set a \<and> c \<notin> set b"
    using Split_two by blast
next
  assume "\<exists>a b. s = a @ c # b \<and> c \<notin> set a \<and> c \<notin> set b"
  then obtain a b where "Split s c = [a, b]" using Split_two by blast
  then show "length (Split s c) = 2" by simp
qed

lemma is_digit_char_of: "(d::nat) < 10 \<Longrightarrow> is_digit (char_of (48 + d))"
  by (simp add: is_digit_def)

lemma char_of_digit [simp]:
  "char_of (48::nat) = CHR ''0''" "char_of (49::nat) = CHR ''1''" "char_of (50::nat) = CHR ''2''"
  "char_of (51::nat) = CHR ''3''" "char_of (52::nat) = CHR ''4''" "char_of (53::nat) = CHR ''5''"
  "char_of (54::nat) = CHR ''6''" "char_of (55::nat) = CHR ''7''" "char_of (56::nat) = CHR ''8''"
  "char_of (57::nat) = CHR ''9''"
  by code_simp+


lemma digits_val_append:
  "digits_val (xs @ ys) acc = (case digits_val xs acc of None \<Rightarrow> None | Some a \<Rightarrow> digits_val ys a)"
  by (induction xs arbitrary: acc) simp_all

lemma digits_val_decimal: "digits_val (decimal n) 0 = Some n"
proof (induction n rule: decimal.induct)
  case (1 n)
  show ?case
  proof (cases "n < 10")
    case True
    then show ?thesis
      by (subst decimal.simps) (simp add: is_digit_char_of)
  next
    case False
    with 1 show ?thesis
      by (subst decimal.simps) (simp add: digits_val_append is_digit_char_of)
  qed
qed

lemma decimal_digits: "\<forall>c \<in> set (decimal n). is_digit c"
proof (induction n rule: decimal.induct)
  case (1 n)
  show ?case
  proof (cases "n < 10")
    case True
    then show ?thesis
      by (subst decimal.simps) (simp add: is_digit_char_of)
  next
    case False
    with 1 show ?thesis
      by (subst decimal.simps) (simp add: is_digit_char_of)
  qed
qed

lemma decimal_not_Nil: "decimal n \<noteq> []"
  by (subst decimal.simps) simp

lemma colon_not_digit: "\<not> is_digit (CHR '':'')"
  by (simp add: is_digit_def)

lemma colon_notin_decimal: "CHR '':'' \<notin> set (decimal n)"
  using decimal_digits [of n] colon_not_digit by blast

lemma colon_notin_Itoa: "CHR '':'' \<notin> set (Itoa i)"
  by (simp add: Itoa_def colon_notin_decimal)

lemma hd_decimal_digit: "is_digit (hd (decimal n))"
  using decimal_digits [of n] decimal_not_Nil [of n] by (cases "decimal n") simp_all

lemma decimal_not_sign: "decimal n = c # cs \<Longrightarrow> c \<noteq> CHR ''-'' \<and> c \<noteq> CHR ''+''"
  using decimal_digits [of n] by (auto simp: is_digit_def)

lemma Atoi_Itoa: 
  assumes "MinInt \<le> i" and "i \<le> MaxInt"
  shows "Atoi (Itoa i) = Some i"
proof (cases "i < 0")
  case True
  with assms show ?thesis
    by (simp add: Atoi_def Itoa_def decimal_not_Nil digits_val_decimal)
next
  case False
  obtain c cs where d: "decimal (nat i) = c # cs"
    using decimal_not_Nil [of "nat i"] by (cases "decimal (nat i)") simp_all
  from decimal_not_sign [OF d] have "c \<noteq> CHR ''-''" "c \<noteq> CHR ''+''" by simp_all
  moreover have "digits_val (c # cs) 0 = Some (nat i)"
    using digits_val_decimal [of "nat i"] d by simp
  ultimately show ?thesis using False assms d
    by (simp add: Atoi_def Itoa_def del: digits_val.simps)
qed

lemma parsePayload_newPayload:
  assumes "CHR '':'' \<notin> set u" and "MinInt \<le> i" and "i \<le> MaxInt"
  shows "parsePayload (newPayload u i) = Inr (u, i)"
proof -
  have "Split (newPayload u i) (CHR '':'') = [u, Itoa i]"
    using assms(1) colon_notin_Itoa [of i] by (simp add: Split_two newPayload_def)
  with Atoi_Itoa [OF assms(2,3)] show ?thesis
    by (simp add: parsePayload_def)
qed

lemma parsePayload_two:
  "Split p (CHR '':'') = [a, b] \<Longrightarrow>
     parsePayload p = (case Atoi b of None \<Rightarrow> Inl (UnexpectedData p) | Some i \<Rightarrow> Inr (a, i))"
  by (simp add: parsePayload_def split: option.split)

lemma parsePayload_not_two:
  "length (Split p (CHR '':'')) \<noteq> 2 \<Longrightarrow> parsePayload p = Inl (UnexpectedData p)"
  by (simp add: parsePayload_def)

lemma parsePayload_Inr:
  "parsePayload p = Inr (u, i) \<longleftrightarrow>
     (\<exists>d. p = u @ CHR '':'' # d \<and> CHR '':'' \<notin> set u \<and> CHR '':'' \<notin> set d \<and> Atoi d = Some i)"
proof
  assume ok: "parsePayload p = Inr (u, i)"
  have "length (Split p (CHR '':'')) = 2"
  proof (rule ccontr)
    assume "length (Split p (CHR '':'')) \<noteq> 2"
    from parsePayload_not_two [OF this] ok show False by simp
  qed
  then obtain a b where p: "p = a @ CHR '':'' # b" "CHR '':'' \<notin> set a" "CHR '':'' \<notin> set b"
    unfolding Split_length_two by blast
  then have ab: "Split p (CHR '':'') = [a, b]"
    unfolding Split_two by simp
  have "a = u \<and> Atoi b = Some i"
  proof (cases "Atoi b")
    case None
    with parsePayload_two [OF ab] ok show ?thesis by simp
  next
    case (Some j)
    with parsePayload_two [OF ab] ok show ?thesis by simp
  qed
  with p show "\<exists>d. p = u @ CHR '':'' # d \<and> CHR '':'' \<notin> set u \<and> CHR '':'' \<notin> set d \<and> Atoi d = Some i"
    by blast
next
  assume "\<exists>d. p = u @ CHR '':'' # d \<and> CHR '':'' \<notin> set u \<and> CHR '':'' \<notin> set d \<and> Atoi d = Some i"
  then obtain d where d: "p = u @ CHR '':'' # d \<and> CHR '':'' \<notin> set u \<and> CHR '':'' \<notin> set d"
    and i: "Atoi d = Some i" by blast
  from d have "Split p (CHR '':'') = [u, d]"
    unfolding Split_two .
  from parsePayload_two [OF this] i show "parsePayload p = Inr (u, i)"
    by simp
qed

lemma parsePayload_cases:
  "parsePayload p = Inl (UnexpectedData p) \<or> (\<exists>u i. parsePayload p = Inr (u, i))"
  by (simp add: parsePayload_def Let_def split: option.split)

lemma parsePayload_Inl:
  "parsePayload p = Inl e \<longleftrightarrow>
     e = UnexpectedData p \<and>
     \<not> (\<exists>u d i. p = u @ CHR '':'' # d \<and> CHR '':'' \<notin> set u \<and> CHR '':'' \<notin> set d \<and> Atoi d = Some i)"
proof -
  have ok: "(\<exists>u i. parsePayload p = Inr (u, i)) \<longleftrightarrow>
    (\<exists>u d i. p = u @ CHR '':'' # d \<and> CHR '':'' \<notin> set u \<and> CHR '':'' \<notin> set d \<and> Atoi d = Some i)"
    using parsePayload_Inr by blast
  show ?thesis
  proof (cases "\<exists>u i. parsePayload p = Inr (u, i)")
    case True
    then obtain u i where "parsePayload p = Inr (u, i)" by blast
    with True ok show ?thesis by simp
  next
    case False
    with parsePayload_cases [of p] have "parsePayload p = Inl (UnexpectedData p)" by blast
    with False ok show ?thesis by auto
  qed
qed

lemma Atoi_range: 
  assumes "Atoi s = Some i" shows "MinInt \<le> i \<and> i \<le> MaxInt"
proof -
  obtain neg ds where nd: "(case s of
           [] \<Rightarrow> (False, s)
         | c # cs \<Rightarrow>
             if c = CHR ''-'' then (True, cs)
             else if c = CHR ''+'' then (False, cs)
             else (False, s)) = (neg, ds)" by (meson surj_pair)
  from assms obtain n where "digits_val ds 0 = Some n"
    and "(let v = (if neg then - int n else int n)
                    in if MinInt \<le> v \<and> v \<le> MaxInt then Some v else None) = Some i"
    unfolding Atoi_def nd by (simp split: if_splits option.splits)
  then show ?thesis by (simp add: Let_def split: if_splits)
qed

subsection \<open>The candidate scan and the claim loop\<close>

lemma scan_no_wrap:
  assumes "mx < MaxInt" and "length candidate < maxCandidate"
  shows "scan usedIds mx i candidate =
           Some (take maxCandidate (candidate @ filter (\<lambda>j. \<not> used usedIds j) [i..mx]))"
  using assms(2)
proof (induction "nat (mx - i + 1)" arbitrary: i candidate)
  case 0
  then have "\<not> i \<le> mx" by simp
  with 0 show ?case by (subst scan.simps) simp
next
  case (Suc n)
  then have le: "i \<le> mx" by simp
  with assms(1) have inc: "incr i = i + 1" by (simp add: incr_def)
  from le have up: "[i..mx] = i # [i + 1..mx]" by (simp add: upto_rec1)
  from Suc have n: "n = nat (mx - (i + 1) + 1)" by simp
  show ?case
  proof (cases "used usedIds i")
    case True
    with le inc up Suc.hyps(1) [OF n Suc.prems] show ?thesis
      by (subst scan.simps) simp
  next
    case False
    show ?thesis
    proof (cases "length (candidate @ [i]) \<ge> maxCandidate")
      case True
      with Suc.prems have "maxCandidate - length candidate = Suc 0" by simp
      with True False le up show ?thesis
        by (subst scan.simps) simp
    next
      case full: False
      then have "length (candidate @ [i]) < maxCandidate" by simp
      from Suc.hyps(1) [OF n this] full False le inc up show ?thesis
        by (subst scan.simps) simp
    qed
  qed
qed

lemma scan_ascending:
  assumes "mx < MaxInt"
  shows "scan usedIds mx mn [] = Some (take maxCandidate (filter (\<lambda>j. \<not> used usedIds j) [mn..mx]))"
  using scan_no_wrap [OF assms, of "[]" usedIds mn] by (simp add: maxCandidate_def)


lemma finite_free: "finite (free usedIds mn mx)"
proof -
  have "free usedIds mn mx \<subseteq> {mn..mx}" by (auto simp: free_def)
  then show ?thesis by (rule finite_subset) simp
qed

lemma card_free_le: "card (free usedIds mn mx) \<le> nat (mx - mn + 1)"
proof -
  have "free usedIds mn mx \<subseteq> {mn..mx}" by (auto simp: free_def)
  then have "card (free usedIds mn mx) \<le> card {mn..mx}" by (rule card_mono [rotated]) simp
  then show ?thesis by simp
qed

lemma set_candidates:
  "set (take n (filter (\<lambda>j. \<not> used usedIds j) [mn..mx])) \<subseteq> free usedIds mn mx"
proof
  fix x assume "x \<in> set (take n (filter (\<lambda>j. \<not> used usedIds j) [mn..mx]))"
  then have "x \<in> set (filter (\<lambda>j. \<not> used usedIds j) [mn..mx])" by (rule in_set_takeD)
  then show "x \<in> free usedIds mn mx" by (simp add: free_def)
qed

lemma candidates_Nil:
  "take maxCandidate (filter (\<lambda>j. \<not> used usedIds j) [mn..mx]) = [] \<longleftrightarrow> free usedIds mn mx = {}"
  by (auto simp: free_def maxCandidate_def filter_empty_conv)

lemma free_mark:
  assumes "i \<in> free usedIds mn mx"
  shows "free (usedIds(i \<mapsto> True)) mn mx = free usedIds mn mx - {i}"
  using assms by (auto simp: free_def used_def)

lemma card_free_mark:
  assumes "i \<in> free usedIds mn mx"
  shows "Suc (card (free (usedIds(i \<mapsto> True)) mn mx)) = card (free usedIds mn mx)"
proof -
  have "card (free usedIds mn mx - {i}) = card (free usedIds mn mx) - 1"
    using assms finite_free by (simp add: card_Diff_singleton)
  moreover have "card (free usedIds mn mx) > 0"
    using assms finite_free [of usedIds mn mx] by (auto simp: card_gt_0_iff)
  ultimately show ?thesis using free_mark [OF assms] by simp
qed


lemma scan_spec:
  "mx < MaxInt \<Longrightarrow> scan usedIds mx mn [] = Some (spec_candidates usedIds mn mx)"
  by (simp add: scan_ascending spec_candidates_def maxCandidate_def)

lemma spec_candidates_free: "set (spec_candidates usedIds mn mx) \<subseteq> free usedIds mn mx"
  unfolding spec_candidates_def by (rule set_candidates)

lemma spec_candidates_Nil: "spec_candidates usedIds mn mx = [] \<longleftrightarrow> free usedIds mn mx = {}"
  using candidates_Nil [of usedIds mn mx] by (simp add: spec_candidates_def maxCandidate_def)

lemma LOCKING_iteration:
  assumes "max_r r < MaxInt"
  shows "LOCKING r draws answers usedIds k cmds =
     (if spec_candidates usedIds (min_r r) (max_r r) = [] then Some (Inl NoMoreAvailableId, cmds)
      else
        (case answers k of
           SetNXErr e \<Rightarrow>
             Some (Inl (RedisError e),
                   cmds @ [SetNX (candidateLockKey r (spec_candidates usedIds (min_r r) (max_r r) !
                       (draws k mod length (spec_candidates usedIds (min_r r) (max_r r)))))
                     (uuid r) (60 * Second)])
         | SetNXVal won \<Rightarrow>
             if won then
               Some (Inr (spec_candidates usedIds (min_r r) (max_r r) !
                       (draws k mod length (spec_candidates usedIds (min_r r) (max_r r)))),
                     cmds @ [SetNX (candidateLockKey r (spec_candidates usedIds (min_r r) (max_r r) !
                       (draws k mod length (spec_candidates usedIds (min_r r) (max_r r)))))
                     (uuid r) (60 * Second)])
             else
               LOCKING r draws answers
                 (usedIds(spec_candidates usedIds (min_r r) (max_r r) !
                       (draws k mod length (spec_candidates usedIds (min_r r) (max_r r))) \<mapsto> True))
                 (k + 1)
                 (cmds @ [SetNX (candidateLockKey r (spec_candidates usedIds (min_r r) (max_r r) !
                       (draws k mod length (spec_candidates usedIds (min_r r) (max_r r)))))
                     (uuid r) (60 * Second)])))"
  by (subst LOCKING.simps) (simp add: scan_spec [OF assms] split: setnx_reply.split)

lemma pick_free:
  assumes "spec_candidates usedIds mn mx \<noteq> []"
  shows "spec_candidates usedIds mn mx ! (d mod length (spec_candidates usedIds mn mx))
           \<in> free usedIds mn mx"
proof -
  from assms have "d mod length (spec_candidates usedIds mn mx) < length (spec_candidates usedIds mn mx)"
    by simp
  then have "spec_candidates usedIds mn mx ! (d mod length (spec_candidates usedIds mn mx))
      \<in> set (spec_candidates usedIds mn mx)" by (rule nth_mem)
  with spec_candidates_free show ?thesis by blast
qed

lemma LOCKING_total:
  assumes "max_r r < MaxInt"
  shows "\<exists>res new. LOCKING r draws answers usedIds k cmds = Some (res, cmds @ new)
           \<and> length new \<le> card (free usedIds (min_r r) (max_r r))
           \<and> (\<forall>c \<in> set new. claim_cmd r c)
           \<and> (res = Inl NoMoreAvailableId \<or> (\<exists>e. res = Inl (RedisError e))
                \<or> (\<exists>i. res = Inr i \<and> i \<in> free usedIds (min_r r) (max_r r)))"
proof (induction "card (free usedIds (min_r r) (max_r r))" arbitrary: usedIds k cmds)
  case 0
  then have "free usedIds (min_r r) (max_r r) = {}" using finite_free by simp
  then have "spec_candidates usedIds (min_r r) (max_r r) = []" by (simp add: spec_candidates_Nil)
  then have "LOCKING r draws answers usedIds k cmds = Some (Inl NoMoreAvailableId, cmds @ [])"
    by (subst LOCKING_iteration [OF assms]) simp
  then show ?case by fastforce
next
  case (Suc n)
  let ?cand = "spec_candidates usedIds (min_r r) (max_r r)"
  let ?pick = "?cand ! (draws k mod length ?cand)"
  let ?cmd = "SetNX (candidateLockKey r ?pick) (uuid r) (60 * Second)"
  from Suc.hyps(2) have "free usedIds (min_r r) (max_r r) \<noteq> {}" by auto
  then have ne: "?cand \<noteq> []" by (simp add: spec_candidates_Nil)
  from pick_free [OF ne] have pick: "?pick \<in> free usedIds (min_r r) (max_r r)" .
  then have cc: "claim_cmd r ?cmd" unfolding claim_cmd_def free_def by simp
  show ?case
  proof (cases "answers k")
    case (SetNXErr e)
    with ne have "LOCKING r draws answers usedIds k cmds = Some (Inl (RedisError e), cmds @ [?cmd])"
      by (subst LOCKING_iteration [OF assms]) simp
    moreover have "length [?cmd] \<le> card (free usedIds (min_r r) (max_r r))"
      using Suc.hyps(2) by simp
    ultimately show ?thesis using cc by fastforce
  next
    case (SetNXVal won)
    show ?thesis
    proof (cases won)
      case True
      with SetNXVal ne have "LOCKING r draws answers usedIds k cmds = Some (Inr ?pick, cmds @ [?cmd])"
        by (subst LOCKING_iteration [OF assms]) simp
      moreover have "length [?cmd] \<le> card (free usedIds (min_r r) (max_r r))"
        using Suc.hyps(2) by simp
      ultimately show ?thesis using cc pick by fastforce
    next
      case False
      with SetNXVal ne have step: "LOCKING r draws answers usedIds k cmds =
          LOCKING r draws answers (usedIds(?pick \<mapsto> True)) (k + 1) (cmds @ [?cmd])"
        by (subst LOCKING_iteration [OF assms]) simp
      from card_free_mark [OF pick] Suc.hyps(2)
      have n: "n = card (free (usedIds(?pick \<mapsto> True)) (min_r r) (max_r r))" by simp
      from Suc.hyps(1) [OF n, of "k + 1" "cmds @ [?cmd]"]
      obtain res new where
        run: "LOCKING r draws answers (usedIds(?pick \<mapsto> True)) (k + 1) (cmds @ [?cmd])
                = Some (res, (cmds @ [?cmd]) @ new)"
        and len: "length new \<le> card (free (usedIds(?pick \<mapsto> True)) (min_r r) (max_r r))"
        and all: "\<forall>c \<in> set new. claim_cmd r c"
        and res: "res = Inl NoMoreAvailableId \<or> (\<exists>e. res = Inl (RedisError e))
                \<or> (\<exists>i. res = Inr i \<and> i \<in> free (usedIds(?pick \<mapsto> True)) (min_r r) (max_r r))"
        by blast
      from run step have 1: "LOCKING r draws answers usedIds k cmds = Some (res, cmds @ (?cmd # new))"
        by simp
      from len n Suc.hyps(2) have 2: "length (?cmd # new) \<le> card (free usedIds (min_r r) (max_r r))"
        by simp
      from all cc have 3: "\<forall>c \<in> set (?cmd # new). claim_cmd r c" by simp
      from res free_mark [OF pick] have 4: "res = Inl NoMoreAvailableId \<or> (\<exists>e. res = Inl (RedisError e))
                \<or> (\<exists>i. res = Inr i \<and> i \<in> free usedIds (min_r r) (max_r r))" by auto
      from 1 2 3 4 show ?thesis by blast
    qed
  qed
qed

subsection \<open>The discovery loop\<close>

lemma LISTING_closed:
  "\<not> since st < timeout \<Longrightarrow> LISTING r c st incoming = (None, st)"
  by (subst LISTING.simps) simp

lemma LISTING_Canceled:
  "since st < timeout \<Longrightarrow> ctx_Done c (since st) \<Longrightarrow> LISTING r c st incoming = (Some Canceled, st)"
  by (subst LISTING.simps) simp

lemma LISTING_receive:
  assumes "since st < timeout" and "\<not> ctx_Done c (since st)"
    and "ReceiveTimeout timeout incoming = (took, msg, rest)"
  shows "LISTING r c st incoming =
     (case msg of
        RecvError e \<Rightarrow>
          (None, st\<lparr>since := since st + took, receives := receives st @ [(since st, timeout, msg)]\<rparr>)
      | Message payload \<Rightarrow>
          (case parsePayload payload of
             Inl err \<Rightarrow>
               LISTING r c
                 (st\<lparr>since := since st + took, receives := receives st @ [(since st, timeout, msg)],
                      logged := logged st @ [err]\<rparr>) rest
           | Inr (xuuid, xid) \<Rightarrow>
               if xuuid = uuid r then
                 (Some DuplicateUuid,
                  st\<lparr>since := since st + took, receives := receives st @ [(since st, timeout, msg)]\<rparr>)
               else
                 LISTING r c
                   (st\<lparr>since := since st + took, receives := receives st @ [(since st, timeout, msg)],
                        used_ids := (used_ids st)(xid \<mapsto> True)\<rparr>) rest)
      | Subscription \<Rightarrow>
          LISTING r c
            (st\<lparr>since := since st + took, receives := receives st @ [(since st, timeout, msg)]\<rparr>) rest
      | Pong \<Rightarrow>
          (Some UnknownRedisMessage,
           st\<lparr>since := since st + took, receives := receives st @ [(since st, timeout, msg)]\<rparr>))"
  using assms
  by (subst LISTING.simps) (simp add: Let_def split: reply.split sum.split prod.split)

lemma ReceiveTimeout_took: "ReceiveTimeout d incoming = (took, msg, rest) \<Longrightarrow> took \<le> d"
  by (auto simp: ReceiveTimeout_def split: list.splits prod.splits if_splits)

lemma ReceiveTimeout_shorter:
  "ReceiveTimeout d incoming = (took, msg, rest) \<Longrightarrow> (\<forall>e. msg \<noteq> RecvError e) \<Longrightarrow>
     length rest < length incoming"
  by (auto simp: ReceiveTimeout_def split: list.splits prod.splits if_splits)


lemma LISTING_trace:
  "LISTING r c st incoming = (out, fin) \<Longrightarrow>
     \<exists>new. receives fin = receives st @ new
       \<and> (\<forall>(t, dl, x) \<in> set new. dl = timeout \<and> t < timeout)
       \<and> (\<forall>t dl p i. (t, dl, Message p) \<in> set new \<longrightarrow> parsePayload p = Inr (uuid r, i) \<longrightarrow>
             out = Some DuplicateUuid \<and> last new = (t, dl, Message p))
       \<and> (\<forall>j. used (used_ids fin) j \<longrightarrow> used (used_ids st) j \<or>
             (\<exists>t dl q u. (t, dl, Message q) \<in> set new \<and> parsePayload q = Inr (u, j) \<and> u \<noteq> uuid r))
       \<and> (since st < 2 * timeout \<longrightarrow> since fin < 2 * timeout)"
proof (induction incoming arbitrary: st rule: length_induct)
  case (1 incoming)
  note run = "1.prems"
  show ?case
  proof (cases "since st < timeout")
    case False
    with run have "fin = st" by (simp add: LISTING_closed)
    then show ?thesis by simp
  next
    case running: True
    show ?thesis
    proof (cases "ctx_Done c (since st)")
      case True
      with running run have "fin = st" by (simp add: LISTING_Canceled)
      then show ?thesis by simp
    next
      case False
      obtain took msg rest where rt: "ReceiveTimeout timeout incoming = (took, msg, rest)"
        by (metis prod_cases3)
      note unfold = LISTING_receive [OF running False rt, of r]
      from ReceiveTimeout_took [OF rt] have took: "took \<le> timeout" .
      let ?e = "(since st, timeout, msg)"
      let ?st = "st\<lparr>since := since st + took, receives := receives st @ [?e]\<rparr>"
      have stop: ?thesis
        if fin: "fin = ?st" and own: "\<And>p i. msg = Message p \<Longrightarrow> parsePayload p = Inr (uuid r, i)
              \<Longrightarrow> out = Some DuplicateUuid"
      proof -
        have "receives fin = receives st @ [?e]" using fin by simp
        moreover have "\<forall>(t, dl, x) \<in> set [?e]. dl = timeout \<and> t < timeout" using running by simp
        moreover have "\<forall>t dl p i. (t, dl, Message p) \<in> set [?e] \<longrightarrow> parsePayload p = Inr (uuid r, i) \<longrightarrow>
             out = Some DuplicateUuid \<and> last [?e] = (t, dl, Message p)" using own by auto
        moreover have "\<forall>j. used (used_ids fin) j \<longrightarrow> used (used_ids st) j \<or>
             (\<exists>t dl q u. (t, dl, Message q) \<in> set [?e] \<and> parsePayload q = Inr (u, j) \<and> u \<noteq> uuid r)"
          using fin by simp
        moreover have "since st < 2 * timeout \<longrightarrow> since fin < 2 * timeout"
          using fin running took by simp
        ultimately show ?thesis by blast
      qed
      have go: ?thesis
        if rec: "LISTING r c st' rest = (out, fin)"
          and shorter: "length rest < length incoming"
          and st': "receives st' = receives st @ [?e]" "since st' = since st + took"
          and foreign: "\<And>p i. msg = Message p \<Longrightarrow> parsePayload p \<noteq> Inr (uuid r, i)"
          and tab: "\<And>j. used (used_ids st') j \<Longrightarrow> used (used_ids st) j \<or>
             (\<exists>q u. msg = Message q \<and> parsePayload q = Inr (u, j) \<and> u \<noteq> uuid r)"
        for st'
      proof -
        from "1.IH" shorter rec obtain new where
          a: "receives fin = receives st' @ new"
          and b: "\<forall>(t, dl, x) \<in> set new. dl = timeout \<and> t < timeout"
          and c: "\<forall>t dl p i. (t, dl, Message p) \<in> set new \<longrightarrow> parsePayload p = Inr (uuid r, i) \<longrightarrow>
             out = Some DuplicateUuid \<and> last new = (t, dl, Message p)"
          and d: "\<forall>j. used (used_ids fin) j \<longrightarrow> used (used_ids st') j \<or>
             (\<exists>t dl q u. (t, dl, Message q) \<in> set new \<and> parsePayload q = Inr (u, j) \<and> u \<noteq> uuid r)"
          and e: "since st' < 2 * timeout \<longrightarrow> since fin < 2 * timeout"
          by blast
        have "receives fin = receives st @ (?e # new)" using a st' by simp
        moreover have "\<forall>(t, dl, x) \<in> set (?e # new). dl = timeout \<and> t < timeout"
          using b running by simp
        moreover have "\<forall>t dl p i. (t, dl, Message p) \<in> set (?e # new) \<longrightarrow>
             parsePayload p = Inr (uuid r, i) \<longrightarrow>
             out = Some DuplicateUuid \<and> last (?e # new) = (t, dl, Message p)"
        proof (intro allI impI)
          fix t dl p i
          assume mem: "(t, dl, Message p) \<in> set (?e # new)" and p: "parsePayload p = Inr (uuid r, i)"
          from foreign p have "msg \<noteq> Message p" by blast
          with mem have in_new: "(t, dl, Message p) \<in> set new" by auto
          with c p have "out = Some DuplicateUuid" "last new = (t, dl, Message p)" by blast+
          moreover from in_new have "new \<noteq> []" by auto
          ultimately show "out = Some DuplicateUuid \<and> last (?e # new) = (t, dl, Message p)" by simp
        qed
        moreover have "\<forall>j. used (used_ids fin) j \<longrightarrow> used (used_ids st) j \<or>
             (\<exists>t dl q u. (t, dl, Message q) \<in> set (?e # new) \<and> parsePayload q = Inr (u, j) \<and> u \<noteq> uuid r)"
        proof (intro allI impI)
          fix j assume "used (used_ids fin) j"
          with d have "used (used_ids st') j \<or>
             (\<exists>t dl q u. (t, dl, Message q) \<in> set new \<and> parsePayload q = Inr (u, j) \<and> u \<noteq> uuid r)"
            by blast
          then show "used (used_ids st) j \<or>
             (\<exists>t dl q u. (t, dl, Message q) \<in> set (?e # new) \<and> parsePayload q = Inr (u, j) \<and> u \<noteq> uuid r)"
          proof
            assume "used (used_ids st') j"
            from tab [OF this] show ?thesis by auto
          next
            assume "\<exists>t dl q u. (t, dl, Message q) \<in> set new \<and> parsePayload q = Inr (u, j) \<and> u \<noteq> uuid r"
            then show ?thesis by auto
          qed
        qed
        moreover have "since st < 2 * timeout \<longrightarrow> since fin < 2 * timeout"
          using e st' running took by simp
        ultimately show ?thesis by blast
      qed
      show ?thesis
      proof (cases msg)
        case (RecvError err)
        with unfold run have "fin = ?st" by simp
        then show ?thesis using RecvError by (intro stop) simp_all
      next
        case Subscription
        with unfold run have "LISTING r c ?st rest = (out, fin)" by simp
        moreover from ReceiveTimeout_shorter [OF rt] Subscription have "length rest < length incoming"
          by simp
        ultimately show ?thesis using Subscription by (intro go [of ?st]) simp_all
      next
        case Pong
        with unfold run have "fin = ?st" by simp
        then show ?thesis using Pong by (intro stop) simp_all
      next
        case (Message payload)
        from ReceiveTimeout_shorter [OF rt] Message have shorter: "length rest < length incoming"
          by simp
        show ?thesis
        proof (cases "parsePayload payload")
          case (Inl err)
          with unfold run Message
          have "LISTING r c (?st\<lparr>logged := logged st @ [err]\<rparr>) rest = (out, fin)" by simp
          then show ?thesis using shorter Message Inl
            by (intro go [of "?st\<lparr>logged := logged st @ [err]\<rparr>"]) simp_all
        next
          case (Inr ui)
          obtain xuuid xid where ui: "ui = (xuuid, xid)" by (cases ui)
          show ?thesis
          proof (cases "xuuid = uuid r")
            case True
            with unfold run Message Inr ui have "fin = ?st" "out = Some DuplicateUuid" by simp_all
            then show ?thesis by (intro stop) simp_all
          next
            case False
            with unfold run Message Inr ui
            have "LISTING r c (?st\<lparr>used_ids := (used_ids st)(xid \<mapsto> True)\<rparr>) rest = (out, fin)"
              by simp
            then show ?thesis using shorter Message Inr ui False
              by (intro go [of "?st\<lparr>used_ids := (used_ids st)(xid \<mapsto> True)\<rparr>"])
                 (auto simp: used_def split: if_splits)
          qed
        qed
      qed
    qed
  qed
qed

subsection \<open>The watcher\<close>

lemma WATCHING_malformed:
  "parsePayload p = Inl err \<Longrightarrow> WATCHING r (Received p # rest) lg = WATCHING r rest (lg @ [err])"
  by simp

lemma WATCHING_duplicate:
  "parsePayload p = Inr (u, i) \<Longrightarrow> i = id_r r \<Longrightarrow> u \<noteq> uuid r \<Longrightarrow>
     WATCHING r (Received p # rest) lg = (Some DuplicateIdDetected, lg)"
  by simp

lemma WATCHING_other:
  "parsePayload p = Inr (u, i) \<Longrightarrow> \<not> (i = id_r r \<and> u \<noteq> uuid r) \<Longrightarrow>
     WATCHING r (Received p # rest) lg = WATCHING r rest lg"
  by auto

lemma WATCHING_iff:
  "fst (WATCHING r evs lg) = Some DuplicateIdDetected \<longleftrightarrow>
     (\<exists>p u. Received p \<in> set evs \<and> parsePayload p = Inr (u, id_r r) \<and> u \<noteq> uuid r)"
proof (induction evs arbitrary: lg)
  case Nil
  then show ?case by simp
next
  case (Cons ev rest)
  show ?case
  proof (cases ev)
    case (ReceiveError e)
    with Cons [of "lg @ [RedisError e]"] show ?thesis by simp
  next
    case (Received p)
    show ?thesis
    proof (cases "parsePayload p")
      case (Inl err)
      have "fst (WATCHING r (ev # rest) lg) = fst (WATCHING r rest (lg @ [err]))"
        unfolding Received WATCHING_malformed [OF Inl] ..
      moreover have "\<not> (\<exists>u. parsePayload p = Inr (u, id_r r) \<and> u \<noteq> uuid r)"
        using Inl by simp
      ultimately show ?thesis using Cons [of "lg @ [err]"] Received by auto
    next
      case (Inr ui)
      obtain u i where ui: "ui = (u, i)" by (cases ui)
      show ?thesis
      proof (cases "i = id_r r \<and> u \<noteq> uuid r")
        case True
        with Inr ui have "fst (WATCHING r (ev # rest) lg) = Some DuplicateIdDetected"
          unfolding Received by (simp del: WATCHING.simps add: WATCHING_duplicate)
        moreover have "\<exists>p u. Received p \<in> set (ev # rest) \<and> parsePayload p = Inr (u, id_r r) \<and> u \<noteq> uuid r"
          using True Inr ui Received by auto
        ultimately show ?thesis by simp
      next
        case False
        from Inr ui have p: "parsePayload p = Inr (u, i)" by simp
        have "fst (WATCHING r (ev # rest) lg) = fst (WATCHING r rest lg)"
          unfolding Received WATCHING_other [OF p False] ..
        moreover have "\<not> (\<exists>u. parsePayload p = Inr (u, id_r r) \<and> u \<noteq> uuid r)"
          using p False by auto
        ultimately show ?thesis using Cons [of lg] Received by auto
      qed
    qed
  qed
qed

lemma WATCHING_outcome:
  "fst (WATCHING r evs lg) = None \<or> fst (WATCHING r evs lg) = Some DuplicateIdDetected"
proof (induction evs arbitrary: lg)
  case Nil
  then show ?case by simp
next
  case (Cons ev rest)
  show ?case
  proof (cases ev)
    case (ReceiveError e)
    with Cons [of "lg @ [RedisError e]"] show ?thesis by simp
  next
    case (Received p)
    show ?thesis
    proof (cases "parsePayload p")
      case (Inl err)
      with Cons [of "lg @ [err]"] Received show ?thesis by simp
    next
      case (Inr ui)
      obtain u i where ui: "ui = (u, i)" by (cases ui)
      with Inr Cons [of lg] Received show ?thesis by simp
    qed
  qed
qed

section \<open>Claims\<close>

text \<open>
  C9. \<open>New\<close> fails exactly when \<open>min < 0\<close> or \<open>min \<ge> max\<close>, so that \<open>min = max\<close> fails;
  the error is one of the two configuration errors, the first for a negative \<open>min\<close>.
  For every other pair it returns a session with these bounds, namespace \<open>raus\<close>
  and broadcast channel \<open>raus:broadcast\<close>.
\<close>

theorem New_range:
  "(New addr mn mx u c = Inl MinNegative \<longleftrightarrow> mn < 0)
   \<and> (New addr mn mx u c = Inl MaxNotGreater \<longleftrightarrow> 0 \<le> mn \<and> mn \<ge> mx)
   \<and> ((\<exists>err. New addr mn mx u c = Inl err) \<longleftrightarrow> mn < 0 \<or> mn \<ge> mx)
   \<and> (\<exists>err. New addr mn mn u c = Inl err)
   \<and> (\<not> (mn < 0 \<or> mn \<ge> mx) \<longrightarrow>
        (\<exists>r. New addr mn mx u c = Inr r \<and> namespace r = ''raus''
           \<and> pubSubChannel r = ''raus:broadcast'' \<and> min_r r = mn \<and> max_r r = mx))"
  by (simp add: New_def defaultNamespace_def pubSubChannelSuffix_def)

theorem New_range_witness:
  "\<not> ((1::int) < 0 \<or> (1::int) \<ge> 3)
   \<and> New ''localhost:6379'' 1 3 ''N0'' 7 = Inr example_session
   \<and> namespace example_session = ''raus''
   \<and> pubSubChannel example_session = ''raus:broadcast''"
  using New_range [of "''localhost:6379''" 1 3 "''N0''" 7]
  by (auto simp: example_session_def New_def defaultNamespace_def pubSubChannelSuffix_def)

end
